theory Spec2Isabelle
  imports Main
begin

section \<open>SAANS data capture: schema, record store, spreadsheet import and export\<close>

text \<open>
  A shallow embedding of \<^verbatim>\<open>src/App.jsx\<close>: the field schema and \<^verbatim>\<open>toKey\<close>, the
  event handlers of the component as functions on its state (\<^verbatim>\<open>form\<close>, \<^verbatim>\<open>records\<close>,
  \<^verbatim>\<open>editingIndex\<close>), the row mapping of \<^verbatim>\<open>importExcel\<close> and the row construction of
  \<^verbatim>\<open>downloadExcel\<close>. Rendering, the file reader, \<^verbatim>\<open>localStorage\<close> and the XLSX codec are
  outside: an import starts from the decoded rows, an export ends with the rows handed to
  the codec.
\<close>

subsection \<open>Strings\<close>

text \<open>
  A JavaScript string is a sequence of UTF-16 code units; a code unit is a natural number
  below 65536. \<open>js\<close> reads an ASCII literal as such a string.
\<close>

type_synonym jsstring = "nat list"

definition js :: "string \<Rightarrow> jsstring" where
  "js s = map of_char s"

text \<open>
  \<^verbatim>\<open>String.prototype.toLowerCase\<close>. On a string whose code units all lie in Basic Latin
  (below U+0080) or General Punctuation (U+2000 to U+206F, which has no cased character)
  the Unicode mapping works unit by unit and only moves \<^verbatim>\<open>A-Z\<close> to \<^verbatim>\<open>a-z\<close>. The Unicode
  case tables for all other strings are not part of the repository: they are the parameter
  \<open>ul\<close>, about which nothing is assumed.
\<close>

definition modelled_unit :: "nat \<Rightarrow> bool" where
  "modelled_unit c \<longleftrightarrow> c < 128 \<or> (8192 \<le> c \<and> c \<le> 8303)"

definition lower_unit :: "nat \<Rightarrow> nat" where
  "lower_unit c = (if 65 \<le> c \<and> c \<le> 90 then c + 32 else c)"

definition toLowerCase :: "(jsstring \<Rightarrow> jsstring) \<Rightarrow> jsstring \<Rightarrow> jsstring" where
  "toLowerCase ul s = (if list_all modelled_unit s then map lower_unit s else ul s)"

text \<open>
  An instance of the parameter for concrete evaluations: strings outside the modelled
  range are left as they are.
\<close>

definition no_case_mapping :: "jsstring \<Rightarrow> jsstring" where
  "no_case_mapping s = s"

text \<open>The character class \<^verbatim>\<open>[a-z0-9]\<close> and the separator \<^verbatim>\<open>_\<close> (code unit 95).\<close>

definition is_lower_alnum :: "nat \<Rightarrow> bool" where
  "is_lower_alnum c \<longleftrightarrow> (97 \<le> c \<and> c \<le> 122) \<or> (48 \<le> c \<and> c \<le> 57)"

text \<open>
  \<^verbatim>\<open>.replace(/[^a-z0-9]+/g, "_")\<close>: scanning from the left, every maximal run of code
  units outside the class becomes one separator.
\<close>

function replace_runs :: "jsstring \<Rightarrow> jsstring" where
  "replace_runs [] = []"
| "replace_runs (c # cs) =
     (if is_lower_alnum c then c # replace_runs cs
      else 95 # replace_runs (dropWhile (\<lambda>d. \<not> is_lower_alnum d) cs))"
  by pat_completeness auto
termination
  by (relation "measure length") (auto simp: length_dropWhile_le less_Suc_eq_le)

text \<open>
  \<^verbatim>\<open>.replace(/^_+|_+$/g, "")\<close>: the run of separators at the start and the run of
  separators at the end are removed.
\<close>

definition strip_underscores :: "jsstring \<Rightarrow> jsstring" where
  "strip_underscores s =
     rev (dropWhile (\<lambda>c. c = 95) (rev (dropWhile (\<lambda>c. c = 95) s)))"

definition toKey :: "(jsstring \<Rightarrow> jsstring) \<Rightarrow> jsstring \<Rightarrow> jsstring" where
  "toKey ul label = strip_underscores (replace_runs (toLowerCase ul label))"

text \<open>
  \<^verbatim>\<open>String.prototype.trim\<close> removes white space and line terminators at both ends: TAB,
  LF, VT, FF, CR, SP, NBSP, U+1680, U+2000 to U+200A, U+2028, U+2029, U+202F, U+205F,
  U+3000 and U+FEFF.
\<close>

definition is_space :: "nat \<Rightarrow> bool" where
  "is_space c \<longleftrightarrow>
     c \<in> set [9, 10, 11, 12, 13, 32, 160, 5760, 8232, 8233, 8239, 8287, 12288, 65279]
     \<or> (8192 \<le> c \<and> c \<le> 8202)"

definition trim :: "jsstring \<Rightarrow> jsstring" where
  "trim s = rev (dropWhile is_space (rev (dropWhile is_space s)))"

subsection \<open>The schema\<close>

definition FIELD_LABELS :: "jsstring list" where
  "FIELD_LABELS =
   [js ''Month '' @ [8230, 8230, 8230, 8230, 8230],
    js ''Name of the Block'',
    js ''Name of Nodal Officer Incharge of SAANS 2025-26'',
    js ''Whether SAANS 2025-26 was inaugurated at District Level?'',
    js ''Number of Blocks that inaugurated SAANS 2025-26?'',
    js ''No. of ASHAs trained on home visits for SAANS?'',
    js ''No. of ANMS trained on SAANS?'',
    js ''No. of Nursing Officers in PHCs, CHCs, Hospitals trained on SAANS?'',
    js ''No. of Doctors trained on SAANS?'',
    js ''No. of ASHAs that did house-to-house visits of under-five children?'',
    js ''No. of under-five-children assessed by ASHAs for cough/difficulty in breathing/fast breathing?'',
    js ''No. of under-five-children having symptoms and signs assessed by ANM/Staff Nurse/Medical Officer?'',
    js ''No. of under-five-children administered pre-referral antibiotics/ORS/other medicines by ANM/Staff Nurse?'',
    js ''No. of under-five-children referred to health facility by ASHA/ANM?'',
    js ''No. of houses with at least 1 of the risk factors identified?'',
    js ''No. of homes where counseling was done using M4M (Mother4Mother) approach?'',
    js ''No. of under-five-children treated with cough syrup/ORS at community level?'',
    js ''No. of under-five-children treated with Pneumonia treatment at community/PHC level?'',
    js ''No. of under-five-children treated with Severe Pneumonia managed as per protocol?'',
    js ''No. of under-five-children administered medications (antibiotics/ORS/other) as per guidelines?'',
    js ''No. of Skill Station functional against approval'',
    js ''Number of infants given PCV-1 vs number of infants eligible'',
    js ''Number of infants given PCV-Booster vs number of infants eligible'']"

definition FIELD_KEYS :: "(jsstring \<Rightarrow> jsstring) \<Rightarrow> jsstring list" where
  "FIELD_KEYS ul = map (\<lambda>l. toKey ul l) FIELD_LABELS"

subsection \<open>Objects and arrays\<close>

text \<open>
  A field value is a string, or \<^verbatim>\<open>undefined\<close> when a property that is not there is read.
  An object is the list of its own enumerable properties in the order \<^verbatim>\<open>Object.keys\<close>
  reports them. Assigning to a property keeps its place when it exists and appends it
  otherwise (the keys written by the component are never array indices, so insertion
  order is the reported order). The component reads a property only where the object
  has it or at a schema key; no schema key names a property of \<^verbatim>\<open>Object.prototype\<close>,
  so a read of an absent property gives \<^verbatim>\<open>undefined\<close>. An import row is such an object
  as the codec built it, with string cells; a header named like a method of
  \<^verbatim>\<open>Object.prototype\<close> is outside the model. \<^verbatim>\<open>records\<close> is taken to be an array, as the
  component itself stores it.
\<close>

datatype jsvalue = Undefined | Str jsstring

type_synonym jsobj = "(jsstring \<times> jsvalue) list"

fun obj_set :: "jsstring \<Rightarrow> jsvalue \<Rightarrow> jsobj \<Rightarrow> jsobj" where
  "obj_set k v [] = [(k, v)]"
| "obj_set k v (p # ps) = (if fst p = k then (k, v) # ps else p # obj_set k v ps)"

definition obj_get :: "jsobj \<Rightarrow> jsstring \<Rightarrow> jsvalue" where
  "obj_get ob k = (case map_of ob k of None \<Rightarrow> Undefined | Some v \<Rightarrow> v)"

definition hasOwnProperty :: "jsobj \<Rightarrow> jsstring \<Rightarrow> bool" where
  "hasOwnProperty ob k \<longleftrightarrow> k \<in> set (map fst ob)"

definition object_keys :: "jsobj \<Rightarrow> jsstring list" where
  "object_keys ob = map fst ob"

text \<open>
  What \<^verbatim>\<open>form\<close> or an array element holds: an object, or \<^verbatim>\<open>undefined\<close>. An array is a
  list of slots; \<open>None\<close> is a hole (an index below the length with no element), which
  \<^verbatim>\<open>filter\<close> and \<^verbatim>\<open>map\<close> skip and which a spread or an indexed read turns into
  \<^verbatim>\<open>undefined\<close>.
\<close>

datatype entry = Undef | Obj jsobj

type_synonym jsarray = "entry option list"

definition read_slot :: "entry option \<Rightarrow> entry" where
  "read_slot x = (case x of None \<Rightarrow> Undef | Some e \<Rightarrow> e)"

definition spread :: "jsarray \<Rightarrow> jsarray" where
  "spread xs = map (\<lambda>x. Some (read_slot x)) xs"

definition array_get :: "jsarray \<Rightarrow> int \<Rightarrow> entry" where
  "array_get xs i =
     (if 0 \<le> i \<and> i < int (length xs) then read_slot (xs ! nat i) else Undef)"

text \<open>
  \<^verbatim>\<open>xs[n] = e\<close> for an integer \<open>n \<ge> 0\<close>: in range it replaces the element; beyond the
  end the array grows to length \<open>n + 1\<close> with holes in between; from \<open>2^32 - 1\<close> on, \<open>n\<close> is
  no array index and the elements stay as they are.
\<close>

definition array_set :: "jsarray \<Rightarrow> nat \<Rightarrow> entry \<Rightarrow> jsarray" where
  "array_set xs n e =
     (if n < length xs then xs[n := Some e]
      else if n < 4294967295 then xs @ replicate (n - length xs) None @ [Some e]
      else xs)"

text \<open>\<^verbatim>\<open>r.filter((_, idx) => idx !== i)\<close>.\<close>

definition filter_other_index :: "int \<Rightarrow> jsarray \<Rightarrow> jsarray" where
  "filter_other_index i xs =
     map snd (filter (\<lambda>(idx, x). x \<noteq> None \<and> int idx \<noteq> i) (enumerate 0 xs))"

text \<open>A sequence of records as an array: no hole, every element an object.\<close>

definition dense :: "jsobj list \<Rightarrow> jsarray" where
  "dense rs = map (\<lambda>r. Some (Obj r)) rs"

subsection \<open>Component state and handlers\<close>

definition emptyRecord :: "(jsstring \<Rightarrow> jsstring) \<Rightarrow> jsobj" where
  "emptyRecord ul = foldl (\<lambda>acc k. obj_set k (Str []) acc) [] (FIELD_KEYS ul)"

record app_state =
  form :: entry
  records :: jsarray
  editingIndex :: int

definition initial_state :: "(jsstring \<Rightarrow> jsstring) \<Rightarrow> app_state" where
  "initial_state ul = \<lparr>form = Obj (emptyRecord ul), records = [], editingIndex = - 1\<rparr>"

text \<open>What a handler shows or hands over besides changing the state.\<close>

datatype notice = NoRecordsToExport | NoDataFound | Imported nat

datatype js_error = TypeError

datatype effect = Alert notice | WriteFile "jsobj option list" | Throw js_error

definition spread_obj :: "entry \<Rightarrow> jsobj" where
  "spread_obj e = (case e of Undef \<Rightarrow> [] | Obj ob \<Rightarrow> ob)"

definition handleChange :: "jsstring \<Rightarrow> jsstring \<Rightarrow> app_state \<Rightarrow> app_state" where
  "handleChange name val s = s\<lparr>form := Obj (obj_set name (Str val) (spread_obj (form s)))\<rparr>"

definition handleSubmit :: "(jsstring \<Rightarrow> jsstring) \<Rightarrow> app_state \<Rightarrow> app_state" where
  "handleSubmit ul s =
     (if editingIndex s \<ge> 0 then
        (let updated = spread (records s);
             updated = array_set updated (nat (editingIndex s)) (form s)
         in s\<lparr>records := updated, editingIndex := - 1, form := Obj (emptyRecord ul)\<rparr>)
      else s\<lparr>records := spread (records s) @ [Some (form s)], form := Obj (emptyRecord ul)\<rparr>)"

definition handleEdit :: "int \<Rightarrow> app_state \<Rightarrow> app_state" where
  "handleEdit i s = s\<lparr>form := array_get (records s) i, editingIndex := i\<rparr>"

text \<open>\<open>confirmed\<close> is the user's answer to the \<^verbatim>\<open>confirm\<close> dialog.\<close>

definition handleDelete :: "bool \<Rightarrow> int \<Rightarrow> app_state \<Rightarrow> app_state" where
  "handleDelete confirmed i s =
     (if \<not> confirmed then s else s\<lparr>records := filter_other_index i (records s)\<rparr>)"

definition clearAll :: "bool \<Rightarrow> app_state \<Rightarrow> app_state" where
  "clearAll confirmed s = (if \<not> confirmed then s else s\<lparr>records := []\<rparr>)"

subsection \<open>Export\<close>

text \<open>
  The row of one record: \<^verbatim>\<open>FIELD_KEYS.forEach((k, idx) => { row[FIELD_LABELS[idx]] = rec[k]; })\<close>
  on an empty \<^verbatim>\<open>row\<close>.
\<close>

definition export_row :: "(jsstring \<Rightarrow> jsstring) \<Rightarrow> jsobj \<Rightarrow> jsobj" where
  "export_row ul rec =
     fold (\<lambda>(k, label) row. obj_set label (obj_get rec k) row)
       (zip (FIELD_KEYS ul) FIELD_LABELS) []"

text \<open>
  \<^verbatim>\<open>records.map(...)\<close>: a hole stays a hole; on an \<^verbatim>\<open>undefined\<close> element the read
  \<^verbatim>\<open>rec[k]\<close> throws.
\<close>

fun export_rows :: "(jsstring \<Rightarrow> jsstring) \<Rightarrow> jsarray \<Rightarrow> js_error + jsobj option list" where
  "export_rows ul [] = Inr []"
| "export_rows ul (None # xs) =
     (case export_rows ul xs of Inl e \<Rightarrow> Inl e | Inr rows \<Rightarrow> Inr (None # rows))"
| "export_rows ul (Some Undef # xs) = Inl TypeError"
| "export_rows ul (Some (Obj r) # xs) =
     (case export_rows ul xs of Inl e \<Rightarrow> Inl e
      | Inr rows \<Rightarrow> Inr (Some (export_row ul r) # rows))"

definition downloadExcel :: "(jsstring \<Rightarrow> jsstring) \<Rightarrow> app_state \<Rightarrow> effect \<times> app_state" where
  "downloadExcel ul s =
     (if length (records s) = 0 then (Alert NoRecordsToExport, s)
      else (case export_rows ul (records s) of
              Inl e \<Rightarrow> (Throw e, s)
            | Inr rows \<Rightarrow> (WriteFile rows, s)))"

subsection \<open>Import\<close>

text \<open>
  The body of \<^verbatim>\<open>FIELD_LABELS.forEach((label, idx) => ...)\<close> for one label and
  \<^verbatim>\<open>FIELD_KEYS[idx]\<close>, on the record \<open>out\<close> built so far.
\<close>

definition matchField ::
  "(jsstring \<Rightarrow> jsstring) \<Rightarrow> jsobj \<Rightarrow> jsstring \<times> jsstring \<Rightarrow> jsobj \<Rightarrow> jsobj" where
  "matchField ul row lk out =
     (let label = fst lk; key = snd lk in
      if hasOwnProperty row label then obj_set key (obj_get row label) out
      else if hasOwnProperty row key then obj_set key (obj_get row key) out
      else (case find (\<lambda>h. trim (toLowerCase ul h) = trim (toLowerCase ul label))
                   (object_keys row) of
              None \<Rightarrow> out
            | Some matchKey \<Rightarrow>
                if matchKey \<noteq> [] then obj_set key (obj_get row matchKey) out else out))"

definition mapRow :: "(jsstring \<Rightarrow> jsstring) \<Rightarrow> jsobj \<Rightarrow> jsobj" where
  "mapRow ul row = fold (matchField ul row) (zip FIELD_LABELS (FIELD_KEYS ul)) (emptyRecord ul)"

definition mapped :: "(jsstring \<Rightarrow> jsstring) \<Rightarrow> jsobj list \<Rightarrow> jsobj list" where
  "mapped ul json = map (mapRow ul) json"

definition importExcel ::
  "(jsstring \<Rightarrow> jsstring) \<Rightarrow> jsobj list \<Rightarrow> app_state \<Rightarrow> effect \<times> app_state" where
  "importExcel ul json s =
     (if length json = 0 then (Alert NoDataFound, s)
      else (Alert (Imported (length (mapped ul json))),
            s\<lparr>records := spread (records s) @ dense (mapped ul json)\<rparr>))"

subsection \<open>Shape of a key\<close>

text \<open>
  \<open>key_unit\<close>: a code unit of \<^verbatim>\<open>[a-z0-9]\<close> or the separator. \<open>no_double_sep\<close>: no two
  separators next to each other.
\<close>

fun no_double_sep :: "jsstring \<Rightarrow> bool" where
  "no_double_sep (a # b # cs) = (\<not> (a = 95 \<and> b = 95) \<and> no_double_sep (b # cs))"
| "no_double_sep cs = True"

definition key_unit :: "nat \<Rightarrow> bool" where
  "key_unit c \<longleftrightarrow> is_lower_alnum c \<or> c = 95"

subsection \<open>Reachable states\<close>

text \<open>The "Reset Form" button.\<close>

definition resetForm :: "(jsstring \<Rightarrow> jsstring) \<Rightarrow> app_state \<Rightarrow> app_state" where
  "resetForm ul s = s\<lparr>form := Obj (emptyRecord ul), editingIndex := - 1\<rparr>"

text \<open>
  The states the component reaches from its initial state by creating, updating and
  importing: typing into a form field (the inputs are named by the schema keys), "Edit" on
  a row of the table (one button per position of \<^verbatim>\<open>records\<close>), submitting the form,
  resetting it, and importing decoded rows.
\<close>

inductive reachable :: "(jsstring \<Rightarrow> jsstring) \<Rightarrow> app_state \<Rightarrow> bool" for ul where
  start: "reachable ul (initial_state ul)"
| change: "reachable ul s \<Longrightarrow> name \<in> set (FIELD_KEYS ul) \<Longrightarrow>
     reachable ul (handleChange name val s)"
| edit: "reachable ul s \<Longrightarrow> 0 \<le> i \<Longrightarrow> i < int (length (records s)) \<Longrightarrow>
     reachable ul (handleEdit i s)"
| submit: "reachable ul s \<Longrightarrow> reachable ul (handleSubmit ul s)"
| reset: "reachable ul s \<Longrightarrow> reachable ul (resetForm ul s)"
| import: "reachable ul s \<Longrightarrow> reachable ul (snd (importExcel ul json s))"

text \<open>
  \<open>full_record\<close>: the slot holds an object whose keys are the schema keys, in schema
  order. \<open>store_inv\<close>: the form and every slot of \<^verbatim>\<open>records\<close> are such, and
  \<^verbatim>\<open>editingIndex\<close> is \<open>-1\<close> or a position of \<^verbatim>\<open>records\<close>.
\<close>

definition full_record :: "(jsstring \<Rightarrow> jsstring) \<Rightarrow> entry option \<Rightarrow> bool" where
  "full_record ul x \<longleftrightarrow> (\<exists>r. x = Some (Obj r) \<and> map fst r = FIELD_KEYS ul)"

definition store_inv :: "(jsstring \<Rightarrow> jsstring) \<Rightarrow> app_state \<Rightarrow> bool" where
  "store_inv ul s \<longleftrightarrow>
     full_record ul (Some (form s)) \<and>
     (\<forall>x \<in> set (records s). full_record ul x) \<and>
     (editingIndex s = - 1 \<or> (0 \<le> editingIndex s \<and> editingIndex s < int (length (records s))))"

section \<open>Properties of \<^verbatim>\<open>toKey\<close>\<close>

lemma not_alnum_95 [simp]: "\<not> is_lower_alnum 95"
  by (simp add: is_lower_alnum_def)

lemma replace_runs_units: "list_all key_unit (replace_runs s)"
  by (induction s rule: replace_runs.induct) (simp_all add: key_unit_def)

lemma replace_runs_hd:
  "replace_runs s \<noteq> [] \<Longrightarrow> hd (replace_runs s) = (if is_lower_alnum (hd s) then hd s else 95)"
  by (cases s) auto

lemma replace_runs_after_run:
  "replace_runs (dropWhile (\<lambda>d. \<not> is_lower_alnum d) cs) = [] \<or>
   hd (replace_runs (dropWhile (\<lambda>d. \<not> is_lower_alnum d) cs)) \<noteq> 95"
proof (cases "dropWhile (\<lambda>d. \<not> is_lower_alnum d) cs")
  case Nil
  show ?thesis unfolding Nil by simp
next
  case (Cons d ds)
  then have "is_lower_alnum d"
    using hd_dropWhile [of "\<lambda>d. \<not> is_lower_alnum d" cs] by auto
  with Cons show ?thesis by auto
qed

lemma no_double_sep_Cons:
  "no_double_sep (a # xs) \<longleftrightarrow> (xs = [] \<or> \<not> (a = 95 \<and> hd xs = 95)) \<and> no_double_sep xs"
  by (cases xs) auto

lemma replace_runs_single: "no_double_sep (replace_runs s)"
proof (induction s rule: replace_runs.induct)
  case 1
  then show ?case by simp
next
  case (2 c cs)
  show ?case
  proof (cases "is_lower_alnum c")
    case True
    with 2 show ?thesis by (auto simp: no_double_sep_Cons)
  next
    case False
    with 2 replace_runs_after_run [of cs] show ?thesis
      by (auto simp: no_double_sep_Cons)
  qed
qed

lemma replace_runs_alnum: "(\<exists>c \<in> set (replace_runs s). is_lower_alnum c) \<longleftrightarrow> (\<exists>c \<in> set s. is_lower_alnum c)"
proof (induction s rule: replace_runs.induct)
  case 1
  then show ?case by simp
next
  case (2 c cs)
  show ?case
  proof (cases "is_lower_alnum c")
    case True
    then show ?thesis by auto
  next
    case False
    have "(\<exists>d \<in> set (dropWhile (\<lambda>d. \<not> is_lower_alnum d) cs). is_lower_alnum d) \<longleftrightarrow> (\<exists>d \<in> set cs. is_lower_alnum d)"
      (is "?L \<longleftrightarrow> ?R")
    proof
      assume ?L then show ?R by (meson in_mono set_dropWhileD subsetI)
    next
      assume ?R
      then obtain d where d: "d \<in> set cs" "is_lower_alnum d" by blast
      have "set cs = set (takeWhile (\<lambda>d. \<not> is_lower_alnum d) cs) \<union> set (dropWhile (\<lambda>d. \<not> is_lower_alnum d) cs)"
        by (metis set_append takeWhile_dropWhile_id)
      with d show ?L by (auto dest: set_takeWhileD)
    qed
    with 2 False show ?thesis by simp
  qed
qed

lemma no_double_sep_append1: "no_double_sep (xs @ ys) \<Longrightarrow> no_double_sep xs"
  by (induction xs rule: no_double_sep.induct) auto

lemma no_double_sep_append2: "no_double_sep (xs @ ys) \<Longrightarrow> no_double_sep ys"
proof (induction xs)
  case Nil then show ?case by simp
next
  case (Cons a xs)
  then show ?case by (auto simp: no_double_sep_Cons)
qed

lemma strip_prefix_suffix:
  "\<exists>us vs. s = us @ strip_underscores s @ vs \<and> list_all (\<lambda>c. c = 95) us \<and> list_all (\<lambda>c. c = 95) vs"
proof -
  let ?P = "\<lambda>c::nat. c = 95"
  let ?d = "dropWhile ?P s"
  have 1: "s = takeWhile ?P s @ ?d" by simp
  have "rev ?d = takeWhile ?P (rev ?d) @ dropWhile ?P (rev ?d)" by simp
  then have "?d = rev (dropWhile ?P (rev ?d)) @ rev (takeWhile ?P (rev ?d))"
    by (metis rev_append rev_rev_ident)
  then have 2: "?d = strip_underscores s @ rev (takeWhile ?P (rev ?d))"
    by (simp add: strip_underscores_def)
  have 3: "list_all ?P (takeWhile ?P s)" "list_all ?P (rev (takeWhile ?P (rev ?d)))"
    by (auto simp: list_all_iff dest: set_takeWhileD)
  have "s = takeWhile ?P s @ strip_underscores s @ rev (takeWhile ?P (rev ?d))"
    using 1 2 by simp
  with 3 show ?thesis by blast
qed

lemma strip_ends:
  assumes "strip_underscores s \<noteq> []"
  shows "hd (strip_underscores s) \<noteq> 95" and "last (strip_underscores s) \<noteq> 95"
proof -
  let ?P = "\<lambda>c::nat. c = 95"
  let ?d = "dropWhile ?P s"
  let ?e = "dropWhile ?P (rev ?d)"
  from assms have e: "?e \<noteq> []" by (simp add: strip_underscores_def)
  have d: "?d \<noteq> []"
  proof
    assume "?d = []"
    then have "?e = []" by (simp only: rev.simps dropWhile.simps)
    with e show False by blast
  qed
  have "last (strip_underscores s) = hd ?e"
    using e by (simp add: strip_underscores_def last_rev)
  moreover have "\<not> ?P (hd ?e)" using e hd_dropWhile by blast
  ultimately show "last (strip_underscores s) \<noteq> 95" by simp
  have "\<not> ?P (hd ?d)" using d hd_dropWhile by blast
  moreover have "?d = strip_underscores s @ rev (takeWhile ?P (rev ?d))"
  proof -
    have "rev ?d = takeWhile ?P (rev ?d) @ ?e" by simp
    then have "?d = rev ?e @ rev (takeWhile ?P (rev ?d))"
      by (metis rev_append rev_rev_ident)
    then show ?thesis by (simp add: strip_underscores_def)
  qed
  ultimately show "hd (strip_underscores s) \<noteq> 95"
    using assms by (metis hd_append2)
qed

lemma strip_units: "list_all key_unit s \<Longrightarrow> list_all key_unit (strip_underscores s)"
  using strip_prefix_suffix [of s] by (metis list_all_append)

lemma strip_single: "no_double_sep s \<Longrightarrow> no_double_sep (strip_underscores s)"
  using strip_prefix_suffix [of s] by (metis no_double_sep_append1 no_double_sep_append2)

lemma strip_nonempty:
  "list_all key_unit s \<Longrightarrow> strip_underscores s \<noteq> [] \<longleftrightarrow> (\<exists>c \<in> set s. is_lower_alnum c)"
proof -
  assume ku: "list_all key_unit s"
  obtain us vs where s: "s = us @ strip_underscores s @ vs"
    and us: "list_all (\<lambda>c. c = 95) us" and vs: "list_all (\<lambda>c. c = 95) vs"
    using strip_prefix_suffix [of s] by blast
  show ?thesis
  proof
    assume ne: "strip_underscores s \<noteq> []"
    then have "hd (strip_underscores s) \<noteq> 95" by (rule strip_ends)
    moreover have "hd (strip_underscores s) \<in> set (strip_underscores s)"
      using ne by simp
    then have "hd (strip_underscores s) \<in> set s"
      using s by (metis Un_iff set_append)
    ultimately show "\<exists>c \<in> set s. is_lower_alnum c"
      using ku by (auto simp: list_all_iff key_unit_def)
  next
    assume "\<exists>c \<in> set s. is_lower_alnum c"
    then obtain c where c: "c \<in> set s" "is_lower_alnum c" by blast
    then have "c \<noteq> 95" by auto
    have "c \<in> set us \<or> c \<in> set (strip_underscores s) \<or> c \<in> set vs"
      using c(1) s by (metis Un_iff set_append)
    with \<open>c \<noteq> 95\<close> us vs have "c \<in> set (strip_underscores s)"
      by (auto simp: list_all_iff)
    then show "strip_underscores s \<noteq> []" by auto
  qed
qed

text \<open>
  Claim C6, as the code has it. For every label (and whatever the case mapping outside
  the modelled range does) the key consists only of code units of \<^verbatim>\<open>[a-z0-9]\<close> and
  separators, has no two separators in a row and neither starts nor ends with a
  separator. The key is non-empty exactly when the lower-cased label has a code unit of
  \<^verbatim>\<open>[a-z0-9]\<close>; a non-empty label need not have one.
\<close>

theorem toKey_shape:
  "list_all (\<lambda>c. is_lower_alnum c \<or> c = 95) (toKey ul label) \<and>
   no_double_sep (toKey ul label) \<and>
   (toKey ul label \<noteq> [] \<longrightarrow> hd (toKey ul label) \<noteq> 95 \<and> last (toKey ul label) \<noteq> 95) \<and>
   (toKey ul label \<noteq> [] \<longleftrightarrow> (\<exists>c \<in> set (toLowerCase ul label). is_lower_alnum c))"
proof -
  let ?t = "replace_runs (toLowerCase ul label)"
  have u: "list_all key_unit ?t" by (rule replace_runs_units)
  have "list_all key_unit (toKey ul label)"
    unfolding toKey_def using u by (rule strip_units)
  then have 1: "list_all (\<lambda>c. is_lower_alnum c \<or> c = 95) (toKey ul label)"
    by (simp add: key_unit_def list_all_iff)
  have 2: "no_double_sep (toKey ul label)"
    unfolding toKey_def by (rule strip_single) (rule replace_runs_single)
  have 3: "toKey ul label \<noteq> [] \<longrightarrow> hd (toKey ul label) \<noteq> 95 \<and> last (toKey ul label) \<noteq> 95"
    unfolding toKey_def using strip_ends by blast
  have 4: "toKey ul label \<noteq> [] \<longleftrightarrow> (\<exists>c \<in> set (toLowerCase ul label). is_lower_alnum c)"
    unfolding toKey_def using strip_nonempty [OF u] replace_runs_alnum by simp
  from 1 2 3 4 show ?thesis by blast
qed

lemma key_unit_lower: "list_all key_unit k \<Longrightarrow> toLowerCase ul k = k"
proof -
  assume ku: "list_all key_unit k"
  have m: "list_all modelled_unit k"
    using ku by (auto simp: list_all_iff key_unit_def is_lower_alnum_def modelled_unit_def)
  have "\<forall>c \<in> set k. lower_unit c = c"
    using ku by (auto simp: list_all_iff key_unit_def is_lower_alnum_def lower_unit_def)
  then have "map lower_unit k = k"
    by (simp add: map_idI)
  with m show ?thesis by (simp add: toLowerCase_def)
qed

lemma replace_runs_fixed:
  "list_all key_unit k \<Longrightarrow> no_double_sep k \<Longrightarrow> replace_runs k = k"
proof (induction k rule: replace_runs.induct)
  case 1
  then show ?case by simp
next
  case (2 c cs)
  show ?case
  proof (cases "is_lower_alnum c")
    case True
    with 2 show ?thesis by (simp add: no_double_sep_Cons)
  next
    case False
    with 2(3) have c: "c = 95" by (simp add: key_unit_def)
    have "dropWhile (\<lambda>d. \<not> is_lower_alnum d) cs = cs"
    proof (cases cs)
      case Nil
      then show ?thesis by simp
    next
      case (Cons d ds)
      with 2(3,4) c have "is_lower_alnum d" by (auto simp: key_unit_def)
      with Cons show ?thesis by simp
    qed
    with 2 False c show ?thesis by (simp add: no_double_sep_Cons)
  qed
qed

lemma strip_fixed:
  "k = [] \<or> (hd k \<noteq> 95 \<and> last k \<noteq> 95) \<Longrightarrow> strip_underscores k = k"
proof (cases k)
  case Nil
  then show ?thesis by (simp add: strip_underscores_def)
next
  case (Cons a as)
  assume "k = [] \<or> (hd k \<noteq> 95 \<and> last k \<noteq> 95)"
  with Cons have a: "a \<noteq> 95" and l: "last k \<noteq> 95" by auto
  have 1: "dropWhile (\<lambda>c. c = 95) k = k" using Cons a by simp
  have "rev k \<noteq> []" using Cons by simp
  moreover have "hd (rev k) \<noteq> 95" using l by (simp add: hd_rev)
  ultimately have "dropWhile (\<lambda>c. c = 95) (rev k) = rev k"
    by (cases "rev k") auto
  with 1 show ?thesis by (simp add: strip_underscores_def)
qed

text \<open>
  Claim C7: \<^verbatim>\<open>toKey\<close> is idempotent: applied to its own output it returns that output,
  for every label. (It is a function of the label, so the same label always yields the
  same key.)
\<close>

theorem toKey_idempotent: "toKey ul (toKey ul label) = toKey ul label"
proof -
  let ?k = "toKey ul label"
  have u: "list_all key_unit ?k"
    unfolding toKey_def by (rule strip_units) (rule replace_runs_units)
  have d: "no_double_sep ?k"
    unfolding toKey_def by (rule strip_single) (rule replace_runs_single)
  have e: "?k = [] \<or> (hd ?k \<noteq> 95 \<and> last ?k \<noteq> 95)"
    unfolding toKey_def using strip_ends by blast
  have "toKey ul ?k = strip_underscores (replace_runs ?k)"
    using key_unit_lower [OF u] by (simp add: toKey_def)
  also have "\<dots> = strip_underscores ?k"
    using replace_runs_fixed [OF u d] by simp
  also have "\<dots> = ?k"
    using e by (rule strip_fixed)
  finally show ?thesis .
qed

lemma toKey_question: "toKey ul (js ''?'') = []"
  by (simp add: toKey_def js_def toLowerCase_def modelled_unit_def lower_unit_def
      is_lower_alnum_def strip_underscores_def)

text \<open>
  Claim C6 as stated fails: the non-empty label \<^verbatim>\<open>"?"\<close> derives the empty key.
\<close>

theorem toKey_nonempty_counterexample:
  "js ''?'' \<noteq> [] \<and> toKey no_case_mapping (js ''?'') = []"
  by (simp add: toKey_question) (simp add: js_def)

theorem toKey_shape_witness:
  "toKey no_case_mapping (js ''A?b'') \<noteq> [] \<and>
   hd (toKey no_case_mapping (js ''A?b'')) \<noteq> 95 \<and>
   last (toKey no_case_mapping (js ''A?b'')) \<noteq> 95"
proof -
  have ne: "toKey no_case_mapping (js ''A?b'') \<noteq> []"
    by (simp add: toKey_def js_def toLowerCase_def modelled_unit_def lower_unit_def
        is_lower_alnum_def strip_underscores_def)
  from toKey_shape [of no_case_mapping "js ''A?b''"] ne show ?thesis by blast
qed

section \<open>The schema, import and export\<close>

subsection \<open>The schema evaluated\<close>

lemma FIELD_KEYS_eq: "FIELD_KEYS ul =
   [js ''month'',
    js ''name_of_the_block'',
    js ''name_of_nodal_officer_incharge_of_saans_2025_26'',
    js ''whether_saans_2025_26_was_inaugurated_at_district_level'',
    js ''number_of_blocks_that_inaugurated_saans_2025_26'',
    js ''no_of_ashas_trained_on_home_visits_for_saans'',
    js ''no_of_anms_trained_on_saans'',
    js ''no_of_nursing_officers_in_phcs_chcs_hospitals_trained_on_saans'',
    js ''no_of_doctors_trained_on_saans'',
    js ''no_of_ashas_that_did_house_to_house_visits_of_under_five_children'',
    js ''no_of_under_five_children_assessed_by_ashas_for_cough_difficulty_in_breathing_fast_breathing'',
    js ''no_of_under_five_children_having_symptoms_and_signs_assessed_by_anm_staff_nurse_medical_officer'',
    js ''no_of_under_five_children_administered_pre_referral_antibiotics_ors_other_medicines_by_anm_staff_nurse'',
    js ''no_of_under_five_children_referred_to_health_facility_by_asha_anm'',
    js ''no_of_houses_with_at_least_1_of_the_risk_factors_identified'',
    js ''no_of_homes_where_counseling_was_done_using_m4m_mother4mother_approach'',
    js ''no_of_under_five_children_treated_with_cough_syrup_ors_at_community_level'',
    js ''no_of_under_five_children_treated_with_pneumonia_treatment_at_community_phc_level'',
    js ''no_of_under_five_children_treated_with_severe_pneumonia_managed_as_per_protocol'',
    js ''no_of_under_five_children_administered_medications_antibiotics_ors_other_as_per_guidelines'',
    js ''no_of_skill_station_functional_against_approval'',
    js ''number_of_infants_given_pcv_1_vs_number_of_infants_eligible'',
    js ''number_of_infants_given_pcv_booster_vs_number_of_infants_eligible'']"
  by (simp add: FIELD_KEYS_def FIELD_LABELS_def js_def toKey_def toLowerCase_def
      modelled_unit_def lower_unit_def is_lower_alnum_def strip_underscores_def)

lemma length_FIELD_LABELS: "length FIELD_LABELS = 23"
  by (simp add: FIELD_LABELS_def)

lemma length_FIELD_KEYS: "length (FIELD_KEYS ul) = length FIELD_LABELS"
  by (simp add: FIELD_KEYS_def)

lemma distinct_FIELD_KEYS: "distinct (FIELD_KEYS ul)"
  unfolding FIELD_KEYS_eq by (simp add: js_def)

lemma distinct_FIELD_LABELS: "distinct FIELD_LABELS"
  unfolding FIELD_LABELS_def by (simp add: js_def)

lemma labels_not_blank: "list_all (\<lambda>l. trim (toLowerCase ul l) \<noteq> []) FIELD_LABELS"
  by (simp add: FIELD_LABELS_def js_def toLowerCase_def modelled_unit_def lower_unit_def
      trim_def is_space_def)

text \<open>
  Claim C9: the schema has 23 labels, and the 23 keys \<^verbatim>\<open>toKey\<close> derives from them are
  pairwise distinct.
\<close>

theorem schema_keys_distinct:
  "length FIELD_LABELS = 23 \<and> length (FIELD_KEYS ul) = 23 \<and> distinct (FIELD_KEYS ul)"
  using length_FIELD_LABELS length_FIELD_KEYS [of ul] distinct_FIELD_KEYS [of ul] by simp


subsection \<open>Objects\<close>

lemma obj_get_obj_set: "obj_get (obj_set k v ob) k' = (if k' = k then v else obj_get ob k')"
  by (induction ob) (auto simp: obj_get_def)

lemma keys_obj_set_present: "k \<in> set (map fst ob) \<Longrightarrow> map fst (obj_set k v ob) = map fst ob"
  by (induction ob) auto

lemma keys_obj_set_absent: "k \<notin> set (map fst ob) \<Longrightarrow> obj_set k v ob = ob @ [(k, v)]"
  by (induction ob) auto

lemma obj_get_absent: "\<not> hasOwnProperty ob k \<Longrightarrow> obj_get ob k = Undefined"
  by (simp add: hasOwnProperty_def obj_get_def map_of_eq_None_iff [THEN iffD2])

lemma foldl_obj_set_fresh:
  "distinct ks \<Longrightarrow> set ks \<inter> set (map fst acc) = {} \<Longrightarrow>
   foldl (\<lambda>acc k. obj_set k v acc) acc ks = acc @ map (\<lambda>k. (k, v)) ks"
proof (induction ks arbitrary: acc)
  case Nil
  then show ?case by simp
next
  case (Cons k ks)
  from Cons.prems have k: "k \<notin> set (map fst acc)" by auto
  have "set ks \<inter> set (map fst (acc @ [(k, v)])) = {}"
    using Cons.prems by auto
  with Cons.IH [of "acc @ [(k, v)]"] Cons.prems k show ?case
    by (simp add: keys_obj_set_absent)
qed

lemma emptyRecord_eq: "emptyRecord ul = map (\<lambda>k. (k, Str [])) (FIELD_KEYS ul)"
  unfolding emptyRecord_def
  using foldl_obj_set_fresh [OF distinct_FIELD_KEYS, of ul "[]" "Str []"] by simp

lemma keys_emptyRecord: "map fst (emptyRecord ul) = FIELD_KEYS ul"
  by (simp add: emptyRecord_eq comp_def)

lemma obj_get_emptyRecord:
  "k \<in> set (FIELD_KEYS ul) \<Longrightarrow> obj_get (emptyRecord ul) k = Str []"
proof -
  assume "k \<in> set (FIELD_KEYS ul)"
  then have "map_of (map (\<lambda>k. (k, Str [])) (FIELD_KEYS ul)) k = Some (Str [])"
    by (induction "FIELD_KEYS ul") (auto simp: map_of_map_restrict)
  then show ?thesis by (simp add: emptyRecord_eq obj_get_def)
qed

subsection \<open>Import\<close>

lemma matchField_keys:
  "snd lk \<in> set (map fst out) \<Longrightarrow> map fst (matchField ul row lk out) = map fst out"
  by (simp add: matchField_def Let_def keys_obj_set_present split: option.split)

lemma matchField_other:
  "k \<noteq> snd lk \<Longrightarrow> obj_get (matchField ul row lk out) k = obj_get out k"
  by (simp add: matchField_def Let_def obj_get_obj_set split: option.split)

lemma matchField_at:
  "obj_get (matchField ul row (label, key) out) key =
     (if hasOwnProperty row label then obj_get row label
      else if hasOwnProperty row key then obj_get row key
      else (case find (\<lambda>h. trim (toLowerCase ul h) = trim (toLowerCase ul label))
                   (object_keys row) of
              None \<Rightarrow> obj_get out key
            | Some h \<Rightarrow> if h \<noteq> [] then obj_get row h else obj_get out key))"
  by (simp add: matchField_def Let_def obj_get_obj_set split: option.split)

lemma fold_matchField_keys:
  "snd ` set ps \<subseteq> set (map fst out) \<Longrightarrow>
   map fst (fold (matchField ul row) ps out) = map fst out"
proof (induction ps arbitrary: out)
  case Nil
  then show ?case by simp
next
  case (Cons p ps)
  then have 1: "map fst (matchField ul row p out) = map fst out"
    by (simp add: matchField_keys)
  with Cons.prems have "snd ` set ps \<subseteq> set (map fst (matchField ul row p out))"
    by simp
  from Cons.IH [OF this] 1 show ?case by simp
qed

lemma fold_matchField_other:
  "k \<notin> snd ` set ps \<Longrightarrow> obj_get (fold (matchField ul row) ps out) k = obj_get out k"
  by (induction ps arbitrary: out) (auto simp: matchField_other)

lemma fold_matchField_at:
  "distinct (map snd ps) \<Longrightarrow> (label, key) \<in> set ps \<Longrightarrow>
   obj_get (fold (matchField ul row) ps out) key =
   obj_get (matchField ul row (label, key) out) key"
proof (induction ps arbitrary: out)
  case Nil
  then show ?case by simp
next
  case (Cons p ps)
  show ?case
  proof (cases "p = (label, key)")
    case True
    with Cons.prems have "key \<notin> snd ` set ps" by auto
    then show ?thesis using True by (simp add: fold_matchField_other)
  next
    case False
    with Cons.prems have in_ps: "(label, key) \<in> set ps" and d: "distinct (map snd ps)"
      by auto
    from Cons.prems in_ps have ne: "key \<noteq> snd p"
      by (metis distinct.simps(2) image_eqI list.simps(9) set_map snd_conv)
    have "obj_get (fold (matchField ul row) ps (matchField ul row p out)) key =
          obj_get (matchField ul row (label, key) (matchField ul row p out)) key"
      using Cons.IH [OF d in_ps] .
    also have "\<dots> = obj_get (matchField ul row (label, key) out) key"
      by (simp only: matchField_at matchField_other [OF ne])
    finally show ?thesis by simp
  qed
qed

lemma keys_mapRow: "map fst (mapRow ul row) = FIELD_KEYS ul"
proof -
  have "snd ` set (zip FIELD_LABELS (FIELD_KEYS ul)) \<subseteq> set (map fst (emptyRecord ul))"
    by (auto simp: keys_emptyRecord dest: set_zip_rightD)
  then show ?thesis
    unfolding mapRow_def by (simp add: fold_matchField_keys keys_emptyRecord)
qed

lemma toLowerCase_Nil: "toLowerCase ul [] = []"
  by (simp add: toLowerCase_def)

lemma mapRow_field:
  assumes idx: "idx < length FIELD_LABELS"
  shows "obj_get (mapRow ul row) (FIELD_KEYS ul ! idx) =
     (if hasOwnProperty row (FIELD_LABELS ! idx) then obj_get row (FIELD_LABELS ! idx)
      else if hasOwnProperty row (FIELD_KEYS ul ! idx) then obj_get row (FIELD_KEYS ul ! idx)
      else (case find (\<lambda>h. trim (toLowerCase ul h) = trim (toLowerCase ul (FIELD_LABELS ! idx)))
                   (object_keys row) of
              Some h \<Rightarrow> obj_get row h
            | None \<Rightarrow> Str []))"
proof -
  let ?label = "FIELD_LABELS ! idx" and ?key = "FIELD_KEYS ul ! idx"
  let ?P = "\<lambda>h. trim (toLowerCase ul h) = trim (toLowerCase ul ?label)"
  have len: "length (FIELD_KEYS ul) = length FIELD_LABELS" by (rule length_FIELD_KEYS)
  have mem: "(?label, ?key) \<in> set (zip FIELD_LABELS (FIELD_KEYS ul))"
    using idx len by (auto simp: set_zip)
  have d: "distinct (map snd (zip FIELD_LABELS (FIELD_KEYS ul)))"
    using len distinct_FIELD_KEYS [of ul] by simp
  have key: "?key \<in> set (FIELD_KEYS ul)" using idx len by simp
  have "?label \<in> set FIELD_LABELS" using idx by simp
  then have nb: "trim (toLowerCase ul ?label) \<noteq> []"
    using labels_not_blank [of ul] by (simp add: list_all_iff)
  have found: "h \<noteq> []" if "find ?P (object_keys row) = Some h" for h
  proof
    assume "h = []"
    moreover from that have "?P h" by (auto simp: find_Some_iff)
    ultimately show False using nb by (simp add: toLowerCase_Nil trim_def)
  qed
  have "obj_get (mapRow ul row) ?key =
        obj_get (matchField ul row (?label, ?key) (emptyRecord ul)) ?key"
    unfolding mapRow_def using d mem by (rule fold_matchField_at)
  then show ?thesis
    using found by (auto simp: matchField_at obj_get_emptyRecord [OF key] split: option.split)
qed


lemma label_1: "FIELD_LABELS ! 1 = js ''Name of the Block''"
  by (simp add: FIELD_LABELS_def)

lemma key_1: "FIELD_KEYS ul ! 1 = js ''name_of_the_block''"
  by (simp add: FIELD_KEYS_eq)

lemma mapRow_block:
  "obj_get (mapRow ul row) (js ''name_of_the_block'') =
     (if hasOwnProperty row (js ''Name of the Block'') then obj_get row (js ''Name of the Block'')
      else if hasOwnProperty row (js ''name_of_the_block'')
        then obj_get row (js ''name_of_the_block'')
      else (case find (\<lambda>h. trim (toLowerCase ul h) = trim (toLowerCase ul (js ''Name of the Block'')))
                   (object_keys row) of
              Some h \<Rightarrow> obj_get row h
            | None \<Rightarrow> Str []))"
  using mapRow_field [of 1 ul row] by (simp only: label_1 key_1 length_FIELD_LABELS)

lemma tier1_example:
  "obj_get (mapRow ul [(js ''Name of the Block'', v)]) (js ''name_of_the_block'') = v"
  by (simp only: mapRow_block) (simp add: hasOwnProperty_def obj_get_def)

lemma tier2_example:
  "\<not> hasOwnProperty [(js ''name_of_the_block'', v)] (js ''Name of the Block'') \<and>
   obj_get (mapRow ul [(js ''name_of_the_block'', v)]) (js ''name_of_the_block'') = v"
  by (simp only: mapRow_block) (simp add: hasOwnProperty_def obj_get_def js_def)

lemma tier3_example:
  "\<not> hasOwnProperty [(js ''NAME OF THE BLOCK  '', v)] (js ''Name of the Block'') \<and>
   \<not> hasOwnProperty [(js ''NAME OF THE BLOCK  '', v)] (js ''name_of_the_block'') \<and>
   obj_get (mapRow ul [(js ''NAME OF THE BLOCK  '', v)]) (js ''name_of_the_block'') = v"
  by (simp only: mapRow_block)
     (simp add: hasOwnProperty_def obj_get_def object_keys_def js_def toLowerCase_def
        modelled_unit_def lower_unit_def trim_def is_space_def)

text \<open>
  Claim C1: the import maps every decoded row to one record, and in the record of row \<open>i\<close>
  the value of every schema field is resolved in strict priority: the value under the
  header equal to the label; otherwise the value under the header equal to the key;
  otherwise the value under the first header, in the row's own order, whose lower-cased
  and trimmed form equals the lower-cased and trimmed label; otherwise the empty string.
  For the label \<^verbatim>\<open>"Name of the Block"\<close> (field 1, key \<^verbatim>\<open>name_of_the_block\<close>) a row with the
  header \<^verbatim>\<open>"Name of the Block"\<close> fills the field by the first tier, a row with the header
  \<^verbatim>\<open>"name_of_the_block"\<close> (no header equal to the label) by the second, and a row with
  the header \<^verbatim>\<open>"NAME OF THE BLOCK  "\<close> (no header equal to label or key) by the third.
\<close>

theorem reconcile_tiers:
  "i < length rows \<Longrightarrow> idx < length FIELD_LABELS \<Longrightarrow>
   length (mapped ul rows) = length rows \<and>
   obj_get (mapped ul rows ! i) (FIELD_KEYS ul ! idx) =
     (if hasOwnProperty (rows ! i) (FIELD_LABELS ! idx)
        then obj_get (rows ! i) (FIELD_LABELS ! idx)
      else if hasOwnProperty (rows ! i) (FIELD_KEYS ul ! idx)
        then obj_get (rows ! i) (FIELD_KEYS ul ! idx)
      else (case find (\<lambda>h. trim (toLowerCase ul h) = trim (toLowerCase ul (FIELD_LABELS ! idx)))
                   (object_keys (rows ! i)) of
              Some h \<Rightarrow> obj_get (rows ! i) h
            | None \<Rightarrow> Str [])) \<and>
   FIELD_LABELS ! 1 = js ''Name of the Block'' \<and>
   FIELD_KEYS ul ! 1 = js ''name_of_the_block'' \<and>
   obj_get (mapRow ul [(js ''Name of the Block'', v)]) (js ''name_of_the_block'') = v \<and>
   (\<not> hasOwnProperty [(js ''name_of_the_block'', v)] (js ''Name of the Block'') \<and>
    obj_get (mapRow ul [(js ''name_of_the_block'', v)]) (js ''name_of_the_block'') = v) \<and>
   (\<not> hasOwnProperty [(js ''NAME OF THE BLOCK  '', v)] (js ''Name of the Block'') \<and>
    \<not> hasOwnProperty [(js ''NAME OF THE BLOCK  '', v)] (js ''name_of_the_block'') \<and>
    obj_get (mapRow ul [(js ''NAME OF THE BLOCK  '', v)]) (js ''name_of_the_block'') = v)"
proof -
  assume i: "i < length rows" and idx: "idx < length FIELD_LABELS"
  have 1: "length (mapped ul rows) = length rows" by (simp add: mapped_def)
  have "mapped ul rows ! i = mapRow ul (rows ! i)" using i by (simp add: mapped_def)
  then have 2: "obj_get (mapped ul rows ! i) (FIELD_KEYS ul ! idx) =
     (if hasOwnProperty (rows ! i) (FIELD_LABELS ! idx)
        then obj_get (rows ! i) (FIELD_LABELS ! idx)
      else if hasOwnProperty (rows ! i) (FIELD_KEYS ul ! idx)
        then obj_get (rows ! i) (FIELD_KEYS ul ! idx)
      else (case find (\<lambda>h. trim (toLowerCase ul h) = trim (toLowerCase ul (FIELD_LABELS ! idx)))
                   (object_keys (rows ! i)) of
              Some h \<Rightarrow> obj_get (rows ! i) h
            | None \<Rightarrow> Str []))"
    using mapRow_field [OF idx, of ul "rows ! i"] by simp
  from 1 2 label_1 key_1 [of ul] tier1_example [of ul v] tier2_example [of v ul]
    tier3_example [of v ul]
  show ?thesis by blast
qed

theorem reconcile_tiers_witness:
  "(0::nat) < length [[(js ''NAME OF THE BLOCK  '', Str (js ''Rampur''))]] \<and>
   (1::nat) < length FIELD_LABELS \<and>
   obj_get (mapped no_case_mapping [[(js ''NAME OF THE BLOCK  '', Str (js ''Rampur''))]] ! 0)
     (FIELD_KEYS no_case_mapping ! 1) = Str (js ''Rampur'')"
proof -
  let ?row = "[(js ''NAME OF THE BLOCK  '', Str (js ''Rampur''))]"
  have a: "(0::nat) < length [?row]" by simp
  have b: "(1::nat) < length FIELD_LABELS" by (simp add: length_FIELD_LABELS)
  have "obj_get (mapped no_case_mapping [?row] ! 0) (FIELD_KEYS no_case_mapping ! 1) =
        obj_get (mapRow no_case_mapping ?row) (js ''name_of_the_block'')"
    using reconcile_tiers [OF a b, of no_case_mapping] by (simp add: mapped_def)
  also have "\<dots> = Str (js ''Rampur'')"
    using reconcile_tiers [OF a b, of no_case_mapping "Str (js ''Rampur'')"] by blast
  finally show ?thesis using a b by blast
qed

subsection \<open>Export\<close>

lemma fold_export_fresh:
  "distinct (map snd ps) \<Longrightarrow> snd ` set ps \<inter> set (map fst acc) = {} \<Longrightarrow>
   fold (\<lambda>(k, label) row. obj_set label (obj_get r k) row) ps acc =
   acc @ map (\<lambda>(k, label). (label, obj_get r k)) ps"
proof (induction ps arbitrary: acc)
  case Nil
  then show ?case by simp
next
  case (Cons p ps)
  obtain k l where p: "p = (k, l)" by (cases p)
  from Cons.prems p have fresh: "l \<notin> set (map fst acc)" by auto
  have "snd ` set ps \<inter> set (map fst (acc @ [(l, obj_get r k)])) = {}"
    using Cons.prems p by auto
  moreover have "distinct (map snd ps)" using Cons.prems by simp
  ultimately show ?case
    using Cons.IH [of "acc @ [(l, obj_get r k)]"] p fresh
    by (simp add: keys_obj_set_absent)
qed

lemma map_zip_swap:
  "length ks = length ls \<Longrightarrow>
   map (\<lambda>(k, label). (label, g k)) (zip ks ls) = zip ls (map g ks)"
  by (induction ks ls rule: list_induct2) auto

lemma export_row_eq:
  "export_row ul r = zip FIELD_LABELS (map (obj_get r) (FIELD_KEYS ul))"
proof -
  have len: "length (FIELD_KEYS ul) = length FIELD_LABELS" by (rule length_FIELD_KEYS)
  have d: "distinct (map snd (zip (FIELD_KEYS ul) FIELD_LABELS))"
    using len distinct_FIELD_LABELS by simp
  have "export_row ul r =
        map (\<lambda>(k, label). (label, obj_get r k)) (zip (FIELD_KEYS ul) FIELD_LABELS)"
    unfolding export_row_def using fold_export_fresh [OF d, of "[]" r] by simp
  also have "\<dots> = zip FIELD_LABELS (map (obj_get r) (FIELD_KEYS ul))"
    using len by (rule map_zip_swap)
  finally show ?thesis .
qed


lemma keys_export_row: "object_keys (export_row ul r) = FIELD_LABELS"
  by (simp add: export_row_eq object_keys_def length_FIELD_KEYS)

lemma obj_get_export_row:
  assumes "idx < length FIELD_LABELS"
  shows "obj_get (export_row ul r) (FIELD_LABELS ! idx) = obj_get r (FIELD_KEYS ul ! idx)"
proof -
  have len: "length FIELD_LABELS = length (map (obj_get r) (FIELD_KEYS ul))"
    by (simp add: length_FIELD_KEYS)
  have "map_of (zip FIELD_LABELS (map (obj_get r) (FIELD_KEYS ul))) (FIELD_LABELS ! idx) =
        Some (map (obj_get r) (FIELD_KEYS ul) ! idx)"
    using len distinct_FIELD_LABELS assms by (simp add: map_of_zip_nth)
  then show ?thesis
    using assms by (simp add: export_row_eq obj_get_def length_FIELD_KEYS)
qed

lemma export_row_cong:
  "(\<forall>k \<in> set (FIELD_KEYS ul). obj_get r k = obj_get r' k) \<Longrightarrow>
   export_row ul r = export_row ul r'"
proof -
  assume "\<forall>k \<in> set (FIELD_KEYS ul). obj_get r k = obj_get r' k"
  then have "map (obj_get r) (FIELD_KEYS ul) = map (obj_get r') (FIELD_KEYS ul)"
    by simp
  then show ?thesis by (simp only: export_row_eq)
qed

lemma export_rows_dense:
  "export_rows ul (dense rs) = Inr (map (\<lambda>r. Some (export_row ul r)) rs)"
  by (induction rs) (simp_all add: dense_def)

text \<open>
  Claim C3, as the code has it. For a non-empty sequence of records the export hands over
  one row per record and leaves the state as it is; the headers of every row are the
  schema labels in schema order; under label \<open>idx\<close> the row holds what reading the
  record at key \<open>idx\<close> gives, which for a key the record does not have is
  \<^verbatim>\<open>undefined\<close>; records that agree on the schema keys give the same row, so keys beyond
  the schema are ignored.
\<close>

theorem export_rows_schema:
  "rs \<noteq> [] \<Longrightarrow>
   downloadExcel ul \<lparr>form = f, records = dense rs, editingIndex = e\<rparr> =
     (WriteFile (map (\<lambda>r. Some (export_row ul r)) rs),
      \<lparr>form = f, records = dense rs, editingIndex = e\<rparr>) \<and>
   (\<forall>r. object_keys (export_row ul r) = FIELD_LABELS) \<and>
   (\<forall>r idx. idx < length FIELD_LABELS \<longrightarrow>
      obj_get (export_row ul r) (FIELD_LABELS ! idx) = obj_get r (FIELD_KEYS ul ! idx)) \<and>
   (\<forall>r idx. idx < length FIELD_LABELS \<and> \<not> hasOwnProperty r (FIELD_KEYS ul ! idx) \<longrightarrow>
      obj_get (export_row ul r) (FIELD_LABELS ! idx) = Undefined) \<and>
   (\<forall>r r'. (\<forall>k \<in> set (FIELD_KEYS ul). obj_get r k = obj_get r' k) \<longrightarrow>
      export_row ul r = export_row ul r')"
proof -
  assume ne: "rs \<noteq> []"
  then have "length (dense rs) \<noteq> 0" by (simp add: dense_def)
  then have "downloadExcel ul \<lparr>form = f, records = dense rs, editingIndex = e\<rparr> =
     (WriteFile (map (\<lambda>r. Some (export_row ul r)) rs),
      \<lparr>form = f, records = dense rs, editingIndex = e\<rparr>)"
    by (simp add: downloadExcel_def export_rows_dense)
  moreover have "\<forall>r idx. idx < length FIELD_LABELS \<and> \<not> hasOwnProperty r (FIELD_KEYS ul ! idx) \<longrightarrow>
      obj_get (export_row ul r) (FIELD_LABELS ! idx) = Undefined"
    by (simp add: obj_get_export_row obj_get_absent)
  ultimately show ?thesis
    using keys_export_row obj_get_export_row export_row_cong by blast
qed

theorem export_rows_schema_witness:
  "[[(js ''extra'', Str (js ''x''))]] \<noteq> [] \<and>
   fst (downloadExcel no_case_mapping
     \<lparr>form = Undef, records = dense [[(js ''extra'', Str (js ''x''))]], editingIndex = - 1\<rparr>) =
     WriteFile [Some (export_row no_case_mapping [(js ''extra'', Str (js ''x''))])] \<and>
   object_keys (export_row no_case_mapping [(js ''extra'', Str (js ''x''))]) = FIELD_LABELS \<and>
   export_row no_case_mapping [(js ''extra'', Str (js ''x''))] = export_row no_case_mapping []"
proof -
  let ?r = "[(js ''extra'', Str (js ''x''))]"
  have a: "[?r] \<noteq> []" by simp
  note t = export_rows_schema [OF a, of no_case_mapping Undef "- 1"]
  have "\<forall>k \<in> set (FIELD_KEYS no_case_mapping). obj_get ?r k = obj_get [] k"
    by (simp add: FIELD_KEYS_eq obj_get_def js_def)
  with t have "export_row no_case_mapping ?r = export_row no_case_mapping []" by blast
  with t a show ?thesis by simp
qed

text \<open>
  Claim C3 as stated fails where it says a missing key reads as the empty string: for the
  record without any key the exported row holds \<^verbatim>\<open>undefined\<close> under
  \<^verbatim>\<open>"Name of the Block"\<close>.
\<close>

theorem missing_key_counterexample:
  "fst (downloadExcel no_case_mapping \<lparr>form = Undef, records = dense [[]], editingIndex = - 1\<rparr>) =
     WriteFile [Some (export_row no_case_mapping [])] \<and>
   obj_get (export_row no_case_mapping []) (js ''Name of the Block'') = Undefined \<and>
   obj_get (export_row no_case_mapping []) (js ''Name of the Block'') \<noteq> Str []"
proof -
  have 1: "fst (downloadExcel no_case_mapping
      \<lparr>form = Undef, records = dense [[]], editingIndex = - 1\<rparr>) =
     WriteFile [Some (export_row no_case_mapping [])]"
    by (simp add: downloadExcel_def export_rows_dense) (simp add: dense_def)
  have "obj_get (export_row no_case_mapping []) (FIELD_LABELS ! 1) =
        obj_get [] (FIELD_KEYS no_case_mapping ! 1)"
    by (rule obj_get_export_row) (simp add: length_FIELD_LABELS)
  then have "obj_get (export_row no_case_mapping []) (js ''Name of the Block'') =
        obj_get [] (js ''name_of_the_block'')"
    by (simp only: label_1 key_1)
  then have 2: "obj_get (export_row no_case_mapping []) (js ''Name of the Block'') = Undefined"
    by (simp add: obj_get_def)
  from 1 2 show ?thesis by simp
qed

text \<open>
  Claim C4: with no records the export alerts "No records to export", hands over no rows
  and leaves the state as it is; the row mapping of the empty sequence is the empty
  sequence, and an import of no rows alerts "No data found" and leaves the state, with its
  records, as it is.
\<close>

theorem empty_input_advisories:
  "downloadExcel ul \<lparr>form = f, records = [], editingIndex = e\<rparr> =
     (Alert NoRecordsToExport, \<lparr>form = f, records = [], editingIndex = e\<rparr>) \<and>
   mapped ul [] = [] \<and>
   importExcel ul [] s = (Alert NoDataFound, s)"
  by (simp add: downloadExcel_def mapped_def importExcel_def)

section \<open>The record store\<close>

subsection \<open>Arrays\<close>

lemma spread_no_holes: "\<forall>x \<in> set xs. x \<noteq> None \<Longrightarrow> spread xs = xs"
  by (induction xs) (auto simp: spread_def read_slot_def)

lemma spread_dense: "spread (dense rs) = dense rs"
  by (rule spread_no_holes) (auto simp: dense_def)

lemma length_dense: "length (dense rs) = length rs"
  by (simp add: dense_def)

lemma filter_other_index_outside:
  assumes "\<not> (0 \<le> i \<and> i < int (length rs))"
  shows "filter_other_index i (dense rs) = dense rs"
proof -
  have "\<forall>p \<in> set (enumerate 0 (dense rs)). (\<lambda>(idx, x). x \<noteq> None \<and> int idx \<noteq> i) p"
    using assms by (auto simp: in_set_enumerate_eq dense_def)
  then have "filter (\<lambda>(idx, x). x \<noteq> None \<and> int idx \<noteq> i) (enumerate 0 (dense rs)) =
             enumerate 0 (dense rs)"
    by (simp only: filter_True)
  then show ?thesis by (simp add: filter_other_index_def)
qed

lemma array_set_inside:
  "i < length rs \<Longrightarrow> array_set (dense rs) i (Obj v) = dense (rs[i := v])"
  by (simp add: array_set_def dense_def map_update)

subsection \<open>Update and delete\<close>

text \<open>
  Claim C8: submitting the form \<open>v\<close> while \<^verbatim>\<open>editingIndex\<close> is a valid position \<open>i\<close> of a
  sequence of records gives a collection of the same length that holds \<open>v\<close> at position
  \<open>i\<close> and the old record at every other position.
\<close>

theorem update_in_place:
  "i < length rs \<Longrightarrow>
   records (handleSubmit ul \<lparr>form = Obj v, records = dense rs, editingIndex = int i\<rparr>) =
     dense (rs[i := v]) \<and>
   length (records (handleSubmit ul \<lparr>form = Obj v, records = dense rs, editingIndex = int i\<rparr>)) =
     length (dense rs) \<and>
   records (handleSubmit ul \<lparr>form = Obj v, records = dense rs, editingIndex = int i\<rparr>) ! i =
     Some (Obj v) \<and>
   (\<forall>j. j < length rs \<and> j \<noteq> i \<longrightarrow>
      records (handleSubmit ul \<lparr>form = Obj v, records = dense rs, editingIndex = int i\<rparr>) ! j =
      dense rs ! j)"
proof -
  assume i: "i < length rs"
  have "records (handleSubmit ul \<lparr>form = Obj v, records = dense rs, editingIndex = int i\<rparr>) =
     dense (rs[i := v])"
    using i by (simp add: handleSubmit_def Let_def spread_dense array_set_inside)
  then show ?thesis using i by (simp add: dense_def)
qed

theorem update_in_place_witness:
  "(1::nat) < length [[(js ''a'', Str [])], [(js ''b'', Str [])]] \<and>
   records (handleSubmit no_case_mapping
     \<lparr>form = Obj [(js ''c'', Str [])],
      records = dense [[(js ''a'', Str [])], [(js ''b'', Str [])]],
      editingIndex = int 1\<rparr>) =
     dense [[(js ''a'', Str [])], [(js ''c'', Str [])]]"
proof -
  have a: "(1::nat) < length [[(js ''a'', Str [])], [(js ''b'', Str [])]]" by simp
  from update_in_place [OF a, of no_case_mapping "[(js ''c'', Str [])]"] a
  show ?thesis by simp
qed

text \<open>
  Claim C10: \<^verbatim>\<open>handleDelete\<close> with an index that is negative, or not below the length of
  the sequence of records, returns the state, and so the collection, unchanged; the
  handler has no failing step.
\<close>

theorem delete_outside_unchanged:
  "\<not> (0 \<le> i \<and> i < int (length rs)) \<Longrightarrow>
   handleDelete confirmed i \<lparr>form = f, records = dense rs, editingIndex = e\<rparr> =
     \<lparr>form = f, records = dense rs, editingIndex = e\<rparr>"
  by (simp add: handleDelete_def filter_other_index_outside)

theorem delete_outside_unchanged_witness:
  "\<not> (0 \<le> (1::int) \<and> (1::int) < int (length [[(js ''a'', Str [])]])) \<and>
   handleDelete True 1 \<lparr>form = Undef, records = dense [[(js ''a'', Str [])]], editingIndex = - 1\<rparr> =
     \<lparr>form = Undef, records = dense [[(js ''a'', Str [])]], editingIndex = - 1\<rparr>"
proof -
  have a: "\<not> (0 \<le> (1::int) \<and> (1::int) < int (length [[(js ''a'', Str [])]]))" by simp
  from delete_outside_unchanged [OF a, of True Undef "- 1"] a show ?thesis by blast
qed

text \<open>
  Claim C2, as the code has it. At an index that is not a position of the sequence of
  records the delete does not fail: it returns the state, and so the collection,
  unchanged. A negative \<^verbatim>\<open>editingIndex\<close> is the component's "not editing" state: the
  submit then takes the create branch and appends the form as a new record, again
  without failing. (What a submit does with an index at or beyond the length is not part
  of this statement.)
\<close>

theorem invalid_index_no_failure:
  "\<not> (0 \<le> i \<and> i < int (length rs)) \<Longrightarrow>
   handleDelete confirmed i \<lparr>form = f, records = dense rs, editingIndex = e\<rparr> =
     \<lparr>form = f, records = dense rs, editingIndex = e\<rparr> \<and>
   (i < 0 \<longrightarrow>
      records (handleSubmit ul \<lparr>form = f, records = dense rs, editingIndex = i\<rparr>) =
        dense rs @ [Some f] \<and>
      editingIndex (handleSubmit ul \<lparr>form = f, records = dense rs, editingIndex = i\<rparr>) = i)"
proof -
  assume a: "\<not> (0 \<le> i \<and> i < int (length rs))"
  have 1: "handleDelete confirmed i \<lparr>form = f, records = dense rs, editingIndex = e\<rparr> =
     \<lparr>form = f, records = dense rs, editingIndex = e\<rparr>"
    by (simp add: handleDelete_def filter_other_index_outside [OF a])
  have 2: "records (handleSubmit ul \<lparr>form = f, records = dense rs, editingIndex = i\<rparr>) =
        dense rs @ [Some f] \<and>
      editingIndex (handleSubmit ul \<lparr>form = f, records = dense rs, editingIndex = i\<rparr>) = i"
    if "i < 0"
    using that by (simp add: handleSubmit_def spread_dense)
  from 1 2 show ?thesis by blast
qed

theorem invalid_index_no_failure_witness:
  "\<not> (0 \<le> (- 1::int) \<and> (- 1::int) < int (length [[(js ''a'', Str [])]])) \<and>
   (- 1::int) < 0 \<and>
   handleDelete True (- 1)
     \<lparr>form = Obj [], records = dense [[(js ''a'', Str [])]], editingIndex = - 1\<rparr> =
     \<lparr>form = Obj [], records = dense [[(js ''a'', Str [])]], editingIndex = - 1\<rparr> \<and>
   records (handleSubmit no_case_mapping
     \<lparr>form = Obj [], records = dense [[(js ''a'', Str [])]], editingIndex = - 1\<rparr>) =
     dense [[(js ''a'', Str [])]] @ [Some (Obj [])]"
proof -
  have a: "\<not> (0 \<le> (- 1::int) \<and> (- 1::int) < int (length [[(js ''a'', Str [])]]))" by simp
  have b: "(- 1::int) < 0" by simp
  from invalid_index_no_failure [OF a, of True "Obj []" "- 1" no_case_mapping] a b
  show ?thesis by blast
qed

text \<open>
  Claim C2 as stated fails: on a collection of one record, index 1 is no valid position,
  yet the delete at index 1 returns the state unchanged; and with the index \<open>-1\<close>, no
  valid position either, the submit returns a collection of two records. Neither is an
  error.
\<close>

theorem index_out_of_range_counterexample:
  "\<not> (0 \<le> (1::int) \<and> (1::int) < int (length [[(js ''a'', Str [])]])) \<and>
   handleDelete True 1 \<lparr>form = Obj [], records = dense [[(js ''a'', Str [])]], editingIndex = - 1\<rparr> =
     \<lparr>form = Obj [], records = dense [[(js ''a'', Str [])]], editingIndex = - 1\<rparr> \<and>
   \<not> (0 \<le> (- 1::int) \<and> (- 1::int) < int (length [[(js ''a'', Str [])]])) \<and>
   records (handleSubmit no_case_mapping
     \<lparr>form = Obj [], records = dense [[(js ''a'', Str [])]], editingIndex = - 1\<rparr>) =
     dense [[(js ''a'', Str [])], []]"
  by (simp add: handleDelete_def filter_other_index_def handleSubmit_def spread_def
      read_slot_def dense_def)

subsection \<open>The records of a reachable state\<close>

lemma full_recordE:
  "full_record ul x \<Longrightarrow> (\<And>r. x = Some (Obj r) \<Longrightarrow> map fst r = FIELD_KEYS ul \<Longrightarrow> P) \<Longrightarrow> P"
  by (auto simp: full_record_def)

lemma full_emptyRecord: "full_record ul (Some (Obj (emptyRecord ul)))"
  by (simp add: full_record_def keys_emptyRecord)

lemma full_no_holes: "\<forall>x \<in> set xs. full_record ul x \<Longrightarrow> spread xs = xs"
  by (rule spread_no_holes) (auto simp: full_record_def)

lemma store_inv_start: "store_inv ul (initial_state ul)"
  by (simp add: store_inv_def initial_state_def full_emptyRecord)

lemma store_inv_change:
  assumes "store_inv ul s" and "name \<in> set (FIELD_KEYS ul)"
  shows "store_inv ul (handleChange name val s)"
proof -
  from assms(1) obtain f where f: "form s = Obj f" "map fst f = FIELD_KEYS ul"
    by (auto simp: store_inv_def full_record_def)
  with assms(2) have "map fst (obj_set name (Str val) f) = FIELD_KEYS ul"
    by (simp add: keys_obj_set_present)
  with assms(1) f show ?thesis
    by (simp add: store_inv_def handleChange_def spread_obj_def full_record_def)
qed

lemma store_inv_edit:
  assumes "store_inv ul s" and "0 \<le> i" and "i < int (length (records s))"
  shows "store_inv ul (handleEdit i s)"
proof -
  from assms(2,3) have "records s ! nat i \<in> set (records s)" by simp
  with assms(1) have "full_record ul (records s ! nat i)" by (simp add: store_inv_def)
  then have "full_record ul (Some (array_get (records s) i))"
    using assms(2,3) by (auto simp: array_get_def read_slot_def full_record_def)
  with assms show ?thesis by (simp add: store_inv_def handleEdit_def)
qed

lemma store_inv_submit:
  assumes "store_inv ul s"
  shows "store_inv ul (handleSubmit ul s)"
proof -
  from assms have "\<forall>x \<in> set (records s). full_record ul x"
    by (simp add: store_inv_def)
  then have sp: "spread (records s) = records s"
    by (rule full_no_holes)
  from assms have f: "full_record ul (Some (form s))"
    and all: "\<forall>x \<in> set (records s). full_record ul x"
    by (simp_all add: store_inv_def)
  show ?thesis
  proof (cases "editingIndex s \<ge> 0")
    case True
    with assms have lt: "nat (editingIndex s) < length (records s)"
      by (auto simp: store_inv_def)
    have "\<forall>x \<in> set ((records s)[nat (editingIndex s) := Some (form s)]). full_record ul x"
    proof
      fix x
      assume "x \<in> set ((records s)[nat (editingIndex s) := Some (form s)])"
      then have "x = Some (form s) \<or> x \<in> set (records s)"
        using set_update_subset_insert [of "records s" "nat (editingIndex s)" "Some (form s)"]
        by auto
      with f all show "full_record ul x" by auto
    qed
    with True lt show ?thesis
      by (simp add: store_inv_def handleSubmit_def Let_def sp array_set_def full_emptyRecord)
  next
    case False
    with assms have "editingIndex s = - 1" by (auto simp: store_inv_def)
    with f all show ?thesis
      by (simp add: store_inv_def handleSubmit_def sp full_emptyRecord)
  qed
qed

lemma store_inv_reset: "store_inv ul s \<Longrightarrow> store_inv ul (resetForm ul s)"
  by (simp add: store_inv_def resetForm_def full_emptyRecord)

lemma store_inv_import:
  assumes "store_inv ul s"
  shows "store_inv ul (snd (importExcel ul json s))"
proof (cases "length json = 0")
  case True
  with assms show ?thesis by (simp add: importExcel_def)
next
  case False
  from assms have "\<forall>x \<in> set (records s). full_record ul x"
    by (simp add: store_inv_def)
  then have sp: "spread (records s) = records s"
    by (rule full_no_holes)
  have "\<forall>x \<in> set (dense (mapped ul json)). full_record ul x"
    by (auto simp: dense_def mapped_def full_record_def keys_mapRow)
  with assms False show ?thesis
    by (auto simp: store_inv_def importExcel_def sp)
qed

lemma reachable_inv: "reachable ul s \<Longrightarrow> store_inv ul s"
  by (induction rule: reachable.induct)
     (simp_all add: store_inv_start store_inv_change store_inv_edit store_inv_submit
        store_inv_reset store_inv_import)

text \<open>
  Claim C5: in every reachable state each slot of \<^verbatim>\<open>records\<close> holds an object whose keys
  are exactly the schema keys: none missing, none beyond them, none twice (they are the
  schema keys in schema order).
\<close>

theorem records_have_schema_keys:
  "reachable ul s \<Longrightarrow> x \<in> set (records s) \<Longrightarrow>
   \<exists>r. x = Some (Obj r) \<and> map fst r = FIELD_KEYS ul \<and>
       set (map fst r) = set (FIELD_KEYS ul) \<and> distinct (map fst r)"
proof -
  assume "reachable ul s" and x: "x \<in> set (records s)"
  then have "store_inv ul s" by (simp add: reachable_inv)
  with x have "full_record ul x" by (simp add: store_inv_def)
  then obtain r where r: "x = Some (Obj r)" "map fst r = FIELD_KEYS ul"
    by (rule full_recordE)
  have "set (map fst r) = set (FIELD_KEYS ul)" "distinct (map fst r)"
    using distinct_FIELD_KEYS [of ul] by (simp_all only: r(2))
  with r show ?thesis by blast
qed

theorem records_have_schema_keys_witness:
  "reachable no_case_mapping
     (handleSubmit no_case_mapping
        (handleChange (js ''month'') (js ''May'') (initial_state no_case_mapping))) \<and>
   Some (Obj (obj_set (js ''month'') (Str (js ''May'')) (emptyRecord no_case_mapping))) \<in>
     set (records (handleSubmit no_case_mapping
        (handleChange (js ''month'') (js ''May'') (initial_state no_case_mapping)))) \<and>
   map fst (obj_set (js ''month'') (Str (js ''May'')) (emptyRecord no_case_mapping)) =
     FIELD_KEYS no_case_mapping"
proof -
  let ?s = "handleSubmit no_case_mapping
        (handleChange (js ''month'') (js ''May'') (initial_state no_case_mapping))"
  let ?r = "obj_set (js ''month'') (Str (js ''May'')) (emptyRecord no_case_mapping)"
  have "js ''month'' \<in> set (FIELD_KEYS no_case_mapping)"
    by (simp add: FIELD_KEYS_eq)
  then have a: "reachable no_case_mapping ?s"
    by (intro reachable.submit reachable.change reachable.start)
  have b: "Some (Obj ?r) \<in> set (records ?s)"
    by (simp add: handleSubmit_def handleChange_def initial_state_def spread_def spread_obj_def)
  from records_have_schema_keys [OF a b] a b show ?thesis by blast
qed

end
